theory Spec2Isabelle
  imports Main "HOL-Library.Sublist"
begin

section \<open>The three page extraction scripts\<close>

text \<open>
  The repository holds three scripts, \<^verbatim>\<open>extract_prd.py\<close> (variant A),
  \<^verbatim>\<open>extract_prd2.py\<close> (variant B) and \<^verbatim>\<open>extract_prd_pages.py\<close> (variant C).
  Each one changes the working directory, opens one PDF document with the PyPDF2 library,
  walks over \<^verbatim>\<open>reader.pages\<close>, calls \<^verbatim>\<open>extract_text()\<close> on every page and writes
  the texts to files.

  The PDF library is not code of the repository, so what it returns is an input of the
  model. Every statement of a script that can raise is a branch that returns the error;
  the scripts contain no \<^verbatim>\<open>try\<close>. A run is a function from the file system
  before it to the file system after it and the result, \<open>Inr ()\<close> when the script
  reaches its end and \<open>Inl e\<close> when the exception \<open>e\<close> ends it.

  The lines that the scripts print are not part of the model.

  Python's text files are buffered. \<^verbatim>\<open>f.write\<close> puts bytes into the memory of the
  file object, and these reach the file when the buffer is full or when the file is
  closed. The \<^verbatim>\<open>with\<close> statement closes the file on every path, also when its body
  raises. So a failure of the operating system to store bytes surfaces in a later
  \<^verbatim>\<open>write\<close> or in the close, and may leave a part of the bytes in the file. The
  sizes of the buffers and the behaviour of the operating system are not in the
  repository: the platform is a parameter of the model.
\<close>

subsection \<open>Data\<close>

text \<open>
  A Python \<^verbatim>\<open>str\<close> is represented by its UTF-8 form, one \<^typ>\<open>char\<close> per byte, so
  that a file written with the \<^verbatim>\<open>utf-8\<close> codec holds the written texts as they are,
  and concatenation and the search for an ASCII pattern mean the same on both sides.
  The text layer of Python writes the line terminator of the platform for every line feed;
  a line feed in the content of a file stands for that terminator.
\<close>

type_synonym path = string

type_synonym filesystem = "path \<rightharpoonup> string"

text \<open>
  The scripts name no exception of their own. The three kinds are those of the
  specification; the model only passes an error on and never inspects it.
\<close>

datatype error = DocumentOpenError | PageExtractionError | DestinationWriteError

text \<open>The outcome of \<^verbatim>\<open>page.extract_text()\<close> for one page.\<close>

type_synonym page = "error + string"

text \<open>The outcome of evaluating \<^verbatim>\<open>reader.pages\<close>, the pages in document order.\<close>

type_synonym reader = "error + page list"

text \<open>
  The outcome of \<^verbatim>\<open>os.chdir(...)\<close> followed by \<^verbatim>\<open>PyPDF2.PdfReader(...)\<close>, the first
  two statements of every script.
\<close>

type_synonym pdf = "error + reader"

text \<open>
  The platform.
  \<^item> \<open>open_err p\<close>: whether \<^verbatim>\<open>open(p, 'w')\<close> fails.
  \<^item> \<open>on_write p stored pending\<close>, for a \<^verbatim>\<open>write\<close> to the file \<open>p\<close> that holds
    \<open>stored\<close>, when the file object has the bytes \<open>pending\<close> in memory, the bytes of
    this call included: a pair \<open>(k, failure)\<close>. The first \<open>k\<close> bytes of \<open>pending\<close> go
    to the file during the call (\<open>k = 0\<close> as long as the buffer has room). The call
    returns when \<open>failure\<close> is \<open>None\<close>; it raises \<open>e\<close> when \<open>failure\<close> is
    \<open>Some (j, e)\<close>, and then the file object keeps the first \<open>j\<close> of the bytes that
    did not go to the file and loses the others.
  \<^item> \<open>on_close p stored pending\<close>, for closing the file: \<open>None\<close> when all of
    \<open>pending\<close> goes to the file, \<open>Some (k, e)\<close> when only its first \<open>k\<close> bytes do and
    the close raises \<open>e\<close>.
  \<^item> \<open>pathsep\<close>: the separator that \<^verbatim>\<open>os.path.join\<close> inserts.
\<close>

record io =
  open_err :: "path \<Rightarrow> error option"
  on_write :: "path \<Rightarrow> string \<Rightarrow> string \<Rightarrow> nat \<times> (nat \<times> error) option"
  on_close :: "path \<Rightarrow> string \<Rightarrow> string \<Rightarrow> (nat \<times> error) option"
  pathsep :: string

datatype encoding = UTF8 | UTF8_SIG

text \<open>
  An open text file: its path, whether the codec still owes the byte-order mark
  (the \<^verbatim>\<open>utf-8-sig\<close> codec emits it with the first \<^verbatim>\<open>write\<close>, also for an empty
  text), and the bytes that the file object holds in memory.
\<close>

record handle =
  hpath :: path
  bom_pending :: bool
  buffer :: string

definition BOM :: string where
  "BOM = [CHR 0xEF, CHR 0xBB, CHR 0xBF]"

definition content :: "filesystem \<Rightarrow> path \<Rightarrow> string" where
  "content fs p = (case fs p of None \<Rightarrow> [] | Some c \<Rightarrow> c)"

text \<open>\<^verbatim>\<open>open(path, 'w', encoding=enc)\<close>: creates or truncates the file.\<close>

definition fresh :: "path \<Rightarrow> encoding \<Rightarrow> handle" where
  "fresh p enc = \<lparr>hpath = p, bom_pending = (enc = UTF8_SIG), buffer = []\<rparr>"

definition fopen :: "io \<Rightarrow> path \<Rightarrow> encoding \<Rightarrow> filesystem \<Rightarrow> filesystem \<times> (error + handle)" where
  "fopen env p enc fs =
     (case open_err env p of
        Some e \<Rightarrow> (fs, Inl e)
      | None \<Rightarrow> (fs(p \<mapsto> []), Inr (fresh p enc)))"

text \<open>
  \<^verbatim>\<open>f.write(data)\<close>, as the file sees it: from what the file holds to what it holds
  after the call, with the file object after the call and the outcome of the call.
\<close>

definition write_bytes :: "io \<Rightarrow> handle \<Rightarrow> string \<Rightarrow> string \<Rightarrow> string \<times> handle \<times> (error + unit)" where
  "write_bytes env f data stored =
     (let pending = buffer f @ (if bom_pending f then BOM else []) @ data;
          (k, failure) = on_write env (hpath f) stored pending;
          left = drop k pending
      in case failure of
           None \<Rightarrow> (stored @ take k pending, f\<lparr>bom_pending := False, buffer := left\<rparr>, Inr ())
         | Some (j, e) \<Rightarrow> (stored @ take k pending, f\<lparr>bom_pending := False, buffer := take j left\<rparr>, Inl e))"

text \<open>\<^verbatim>\<open>f.write(data)\<close> in the file system.\<close>

definition fwrite :: "io \<Rightarrow> handle \<Rightarrow> string \<Rightarrow> filesystem \<Rightarrow> filesystem \<times> handle \<times> (error + unit)" where
  "fwrite env f data fs =
     (case write_bytes env f data (content fs (hpath f)) of
        (stored, f1, r) \<Rightarrow> (fs(hpath f \<mapsto> stored), f1, r))"

text \<open>Closing the file: what is in memory goes to the file, or a first part of it.\<close>

definition close_bytes :: "io \<Rightarrow> handle \<Rightarrow> string \<Rightarrow> string \<times> (error + unit)" where
  "close_bytes env f stored =
     (case on_close env (hpath f) stored (buffer f) of
        None \<Rightarrow> (stored @ buffer f, Inr ())
      | Some (k, e) \<Rightarrow> (stored @ take k (buffer f), Inl e))"

definition fclose :: "io \<Rightarrow> handle \<Rightarrow> filesystem \<Rightarrow> filesystem \<times> (error + unit)" where
  "fclose env f fs =
     (case close_bytes env f (content fs (hpath f)) of
        (stored, r) \<Rightarrow> (fs(hpath f \<mapsto> stored), r))"

text \<open>
  The end of a \<^verbatim>\<open>with open(...) as f\<close> statement whose body left the file system
  \<open>fs\<close>, the file object \<open>f\<close> and the outcome \<open>r\<close>: the file is closed whether the
  body raised or not; an exception of the close is the one that leaves the statement,
  otherwise the outcome of the body is.
\<close>

definition leave :: "io \<Rightarrow> filesystem \<times> handle \<times> (error + unit) \<Rightarrow> filesystem \<times> (error + unit)" where
  "leave env body =
     (case body of
        (fs, f, r) \<Rightarrow>
          (case fclose env f fs of
             (fs1, Inl e) \<Rightarrow> (fs1, Inl e)
           | (fs1, Inr u) \<Rightarrow> (fs1, r)))"

text \<open>A raw string literal of Windows path components, joined by backslashes.\<close>

definition backslash :: string where
  "backslash = [CHR 0x5C]"

fun raw_path :: "string list \<Rightarrow> string" where
  "raw_path [] = []"
| "raw_path [c] = c"
| "raw_path (c # cs) = c @ backslash @ raw_path cs"

text \<open>Python's decimal rendering of a non-negative integer in an f-string.\<close>

definition digit_char :: "nat \<Rightarrow> char" where
  "digit_char d = ''0123456789'' ! d"

fun str_nat :: "nat \<Rightarrow> string" where
  "str_nat n = (if n < 10 then [digit_char n] else str_nat (n div 10) @ [digit_char (n mod 10)])"

declare str_nat.simps [simp del]

subsection \<open>Variant A: \<^verbatim>\<open>extract_prd.py\<close>\<close>

definition prd_full :: path where
  "prd_full = raw_path [''c:'', ''Users'', ''Bill'', ''Desktop'', ''Vexium Verse'', ''Vex'', ''prd_full.txt'']"

definition page_break :: string where
  "page_break = ''\<newline>\<newline>---PAGE BREAK---\<newline>\<newline>''"

text \<open>
  \<^verbatim>\<open>
  for page in reader.pages:
      text = page.extract_text()
      f.write(text + '\n\n---PAGE BREAK---\n\n')
  \<close>
\<close>

fun write_pages_A :: "io \<Rightarrow> handle \<Rightarrow> page list \<Rightarrow> filesystem \<Rightarrow> filesystem \<times> handle \<times> (error + unit)" where
  "write_pages_A env f [] fs = (fs, f, Inr ())"
| "write_pages_A env f (pg # pgs) fs =
     (case pg of
        Inl e \<Rightarrow> (fs, f, Inl e)
      | Inr text \<Rightarrow>
          (case fwrite env f (text @ page_break) fs of
             (fs1, f1, Inl e) \<Rightarrow> (fs1, f1, Inl e)
           | (fs1, f1, Inr u) \<Rightarrow> write_pages_A env f1 pgs fs1))"

text \<open>
  The script: the reader is built first, then the output file is opened; inside the
  \<^verbatim>\<open>with\<close> statement \<^verbatim>\<open>reader.pages\<close> is evaluated and the loop runs.
\<close>

definition extract_prd :: "io \<Rightarrow> pdf \<Rightarrow> filesystem \<Rightarrow> filesystem \<times> (error + unit)" where
  "extract_prd env doc fs =
     (case doc of
        Inl e \<Rightarrow> (fs, Inl e)
      | Inr rd \<Rightarrow>
          (case fopen env prd_full UTF8 fs of
             (fs1, Inl e) \<Rightarrow> (fs1, Inl e)
           | (fs1, Inr f) \<Rightarrow>
               leave env
                 (case rd of
                    Inl e \<Rightarrow> (fs1, f, Inl e)
                  | Inr pgs \<Rightarrow> write_pages_A env f pgs fs1)))"

subsection \<open>Variant B: \<^verbatim>\<open>extract_prd2.py\<close>\<close>

definition output_path :: path where
  "output_path = raw_path [''c:'', ''Users'', ''Bill'', ''Desktop'', ''Vexium Verse'', ''vexium-verse'', ''prd_extracted.txt'']"

text \<open>The f-string \<^verbatim>\<open>f'\n=== PAGE {n} ===\n'\<close>.\<close>

definition page_header :: "nat \<Rightarrow> string" where
  "page_header n = ''\<newline>=== PAGE '' @ str_nat n @ '' ===\<newline>''"

text \<open>
  \<^verbatim>\<open>
  for i, page in enumerate(reader.pages):
      text = page.extract_text()
      f.write(f'\n=== PAGE {i+1} ===\n')
      f.write(text)
  \<close>
\<close>

fun write_pages_B :: "io \<Rightarrow> handle \<Rightarrow> nat \<Rightarrow> page list \<Rightarrow> filesystem \<Rightarrow> filesystem \<times> handle \<times> (error + unit)" where
  "write_pages_B env f i [] fs = (fs, f, Inr ())"
| "write_pages_B env f i (pg # pgs) fs =
     (case pg of
        Inl e \<Rightarrow> (fs, f, Inl e)
      | Inr text \<Rightarrow>
          (case fwrite env f (page_header (i + 1)) fs of
             (fs1, f1, Inl e) \<Rightarrow> (fs1, f1, Inl e)
           | (fs1, f1, Inr u) \<Rightarrow>
               (case fwrite env f1 text fs1 of
                  (fs2, f2, Inl e) \<Rightarrow> (fs2, f2, Inl e)
                | (fs2, f2, Inr u) \<Rightarrow> write_pages_B env f2 (i + 1) pgs fs2)))"

definition extract_prd2 :: "io \<Rightarrow> pdf \<Rightarrow> filesystem \<Rightarrow> filesystem \<times> (error + unit)" where
  "extract_prd2 env doc fs =
     (case doc of
        Inl e \<Rightarrow> (fs, Inl e)
      | Inr rd \<Rightarrow>
          (case fopen env output_path UTF8 fs of
             (fs1, Inl e) \<Rightarrow> (fs1, Inl e)
           | (fs1, Inr f) \<Rightarrow>
               leave env
                 (case rd of
                    Inl e \<Rightarrow> (fs1, f, Inl e)
                  | Inr pgs \<Rightarrow> write_pages_B env f 0 pgs fs1)))"

subsection \<open>Variant C: \<^verbatim>\<open>extract_prd_pages.py\<close>\<close>

definition outdir :: path where
  "outdir = raw_path [''c:'', ''Users'', ''Bill'', ''Desktop'', ''Vexium Verse'', ''vexium-verse'']"

text \<open>
  \<^verbatim>\<open>os.path.join(outdir, name)\<close> for a directory that does not end in a separator and
  a relative name.
\<close>

definition join :: "io \<Rightarrow> path \<Rightarrow> string \<Rightarrow> path" where
  "join env d name = d @ pathsep env @ name"

text \<open>\<^verbatim>\<open>os.path.join(outdir, f'prd_page_{n}.md')\<close>.\<close>

definition page_file :: "io \<Rightarrow> nat \<Rightarrow> path" where
  "page_file env n = join env outdir (''prd_page_'' @ str_nat n @ ''.md'')"

text \<open>
  \<^verbatim>\<open>
  for i, page in enumerate(reader.pages):
      path = os.path.join(outdir, f'prd_page_{i+1}.md')
      with open(path, 'w', encoding='utf-8-sig') as f:
          f.write(page.extract_text())
  \<close>
  The file is opened before the text of the page is extracted, and closed before the
  next page is looked at.
\<close>

fun write_pages_C :: "io \<Rightarrow> nat \<Rightarrow> page list \<Rightarrow> filesystem \<Rightarrow> filesystem \<times> (error + unit)" where
  "write_pages_C env i [] fs = (fs, Inr ())"
| "write_pages_C env i (pg # pgs) fs =
     (case fopen env (page_file env (i + 1)) UTF8_SIG fs of
        (fs1, Inl e) \<Rightarrow> (fs1, Inl e)
      | (fs1, Inr f) \<Rightarrow>
          (case leave env
                  (case pg of
                     Inl e \<Rightarrow> (fs1, f, Inl e)
                   | Inr text \<Rightarrow> fwrite env f text fs1) of
             (fs2, Inl e) \<Rightarrow> (fs2, Inl e)
           | (fs2, Inr u) \<Rightarrow> write_pages_C env (i + 1) pgs fs2))"

definition extract_prd_pages :: "io \<Rightarrow> pdf \<Rightarrow> filesystem \<Rightarrow> filesystem \<times> (error + unit)" where
  "extract_prd_pages env doc fs =
     (case doc of
        Inl e \<Rightarrow> (fs, Inl e)
      | Inr rd \<Rightarrow>
          (case rd of
             Inl e \<Rightarrow> (fs, Inl e)
           | Inr pgs \<Rightarrow> write_pages_C env 0 pgs fs))"

subsection \<open>Vocabulary of the properties\<close>

text \<open>A document that opens and whose pages all yield their texts.\<close>

definition good_pdf :: "string list \<Rightarrow> pdf" where
  "good_pdf ts = Inr (Inr (map Inr ts))"

text \<open>A platform on which no open, no write and no close fails.\<close>

definition no_failure :: "io \<Rightarrow> bool" where
  "no_failure env =
     ((\<forall>p. open_err env p = None) \<and>
      (\<forall>p stored pending. snd (on_write env p stored pending) = None) \<and>
      (\<forall>p stored pending. on_close env p stored pending = None))"

text \<open>
  Such a platform, with the path separator of Windows and a buffer that takes every
  file of the examples whole.
\<close>

definition windows :: io where
  "windows =
     \<lparr>open_err = (\<lambda>p. None),
      on_write = (\<lambda>p stored pending. (0, None)),
      on_close = (\<lambda>p stored pending. None),
      pathsep = backslash\<rparr>"

text \<open>The number of positions of a text at which a pattern starts.\<close>

fun occurrences :: "string \<Rightarrow> string \<Rightarrow> nat" where
  "occurrences pat [] = 0"
| "occurrences pat (c # cs) = (if prefix pat (c # cs) then 1 else 0) + occurrences pat cs"

definition marker :: string where
  "marker = ''---PAGE BREAK---''"

text \<open>What variant A is to leave in its file: every text followed by the separator.\<close>

definition joined_A :: "string list \<Rightarrow> string" where
  "joined_A ts = concat (map (\<lambda>t. t @ page_break) ts)"

text \<open>
  What variant B is to leave in its file when the first page has the number \<open>i + 1\<close>:
  every text behind its header.
\<close>

definition joined_B_from :: "nat \<Rightarrow> string list \<Rightarrow> string" where
  "joined_B_from i ts = concat (map (\<lambda>(k, t). page_header (k + 1) @ t) (enumerate i ts))"

definition joined_B :: "string list \<Rightarrow> string" where
  "joined_B ts = joined_B_from 0 ts"

text \<open>Reading a decimal numeral, the inverse of \<^const>\<open>str_nat\<close>.\<close>

definition digit_val :: "char \<Rightarrow> nat" where
  "digit_val c = of_char c - 48"

definition is_digit :: "char \<Rightarrow> bool" where
  "is_digit c = (c \<in> set ''0123456789'')"

definition int_of_digits :: "string \<Rightarrow> nat" where
  "int_of_digits ds = foldl (\<lambda>a c. 10 * a + digit_val c) 0 ds"

text \<open>
  A header \<^verbatim>\<open>=== PAGE <k> ===\<close> at the very start of a text, with \<^verbatim>\<open><k>\<close> a
  non-empty run of decimal digits: its number.
\<close>

definition header_at :: "string \<Rightarrow> nat option" where
  "header_at s =
     (if prefix ''=== PAGE '' s then
        (let r = drop 9 s; ds = takeWhile is_digit r in
         if ds \<noteq> [] \<and> prefix '' ==='' (dropWhile is_digit r) then Some (int_of_digits ds) else None)
      else None)"

text \<open>The numbers of all headers of a text, in the order in which they start.\<close>

fun headers :: "string \<Rightarrow> nat list" where
  "headers [] = []"
| "headers (c # cs) = (case header_at (c # cs) of Some k \<Rightarrow> k # headers cs | None \<Rightarrow> headers cs)"

definition header_line :: "nat \<Rightarrow> string" where
  "header_line n = ''=== PAGE '' @ str_nat n @ '' ===''"


text \<open>The texts of the pages in front of the first page whose extraction fails.\<close>

fun good_texts :: "page list \<Rightarrow> string list" where
  "good_texts [] = []"
| "good_texts (Inl e # pgs) = []"
| "good_texts (Inr t # pgs) = t # good_texts pgs"




subsection \<open>The runs, file by file\<close>

text \<open>
  The loops of variants A and B write to one file. The functions of this section follow
  that file alone, from what it holds to what it holds; the facts about the runs are
  proved on them and carried over to the file system.
\<close>

fun pages_A_file :: "io \<Rightarrow> handle \<Rightarrow> page list \<Rightarrow> string \<Rightarrow> string \<times> handle \<times> (error + unit)" where
  "pages_A_file env f [] stored = (stored, f, Inr ())"
| "pages_A_file env f (pg # pgs) stored =
     (case pg of
        Inl e \<Rightarrow> (stored, f, Inl e)
      | Inr text \<Rightarrow>
          (case write_bytes env f (text @ page_break) stored of
             (s1, f1, Inl e) \<Rightarrow> (s1, f1, Inl e)
           | (s1, f1, Inr u) \<Rightarrow> pages_A_file env f1 pgs s1))"

fun pages_B_file :: "io \<Rightarrow> handle \<Rightarrow> nat \<Rightarrow> page list \<Rightarrow> string \<Rightarrow> string \<times> handle \<times> (error + unit)" where
  "pages_B_file env f i [] stored = (stored, f, Inr ())"
| "pages_B_file env f i (pg # pgs) stored =
     (case pg of
        Inl e \<Rightarrow> (stored, f, Inl e)
      | Inr text \<Rightarrow>
          (case write_bytes env f (page_header (i + 1)) stored of
             (s1, f1, Inl e) \<Rightarrow> (s1, f1, Inl e)
           | (s1, f1, Inr u) \<Rightarrow>
               (case write_bytes env f1 text s1 of
                  (s2, f2, Inl e) \<Rightarrow> (s2, f2, Inl e)
                | (s2, f2, Inr u) \<Rightarrow> pages_B_file env f2 (i + 1) pgs s2)))"

definition finish :: "io \<Rightarrow> string \<times> handle \<times> (error + unit) \<Rightarrow> string \<times> (error + unit)" where
  "finish env body =
     (case body of
        (stored, f, r) \<Rightarrow>
          (case close_bytes env f stored of
             (s1, Inl e) \<Rightarrow> (s1, Inl e)
           | (s1, Inr u) \<Rightarrow> (s1, r)))"

definition block_A :: "io \<Rightarrow> reader \<Rightarrow> string \<times> (error + unit)" where
  "block_A env rd =
     finish env
       (case rd of
          Inl e \<Rightarrow> ([], fresh prd_full UTF8, Inl e)
        | Inr pgs \<Rightarrow> pages_A_file env (fresh prd_full UTF8) pgs [])"

definition block_B :: "io \<Rightarrow> reader \<Rightarrow> string \<times> (error + unit)" where
  "block_B env rd =
     finish env
       (case rd of
          Inl e \<Rightarrow> ([], fresh output_path UTF8, Inl e)
        | Inr pgs \<Rightarrow> pages_B_file env (fresh output_path UTF8) 0 pgs [])"

definition block_C :: "io \<Rightarrow> path \<Rightarrow> page \<Rightarrow> string \<times> (error + unit)" where
  "block_C env p pg =
     finish env
       (case pg of
          Inl e \<Rightarrow> ([], fresh p UTF8_SIG, Inl e)
        | Inr text \<Rightarrow> write_bytes env (fresh p UTF8_SIG) text [])"

section \<open>Auxiliary facts\<close>

subsection \<open>One write and one close\<close>

lemma write_bytes_cases:
  obtains k where "on_write env (hpath f) s (buffer f @ (if bom_pending f then BOM else []) @ data) = (k, None)"
      and "write_bytes env f data s =
        (s @ take k (buffer f @ (if bom_pending f then BOM else []) @ data),
         f\<lparr>bom_pending := False, buffer := drop k (buffer f @ (if bom_pending f then BOM else []) @ data)\<rparr>, Inr ())"
  | k j e where "on_write env (hpath f) s (buffer f @ (if bom_pending f then BOM else []) @ data) = (k, Some (j, e))"
      and "write_bytes env f data s =
        (s @ take k (buffer f @ (if bom_pending f then BOM else []) @ data),
         f\<lparr>bom_pending := False,
           buffer := take j (drop k (buffer f @ (if bom_pending f then BOM else []) @ data))\<rparr>, Inl e)"
proof -
  define P where "P = buffer f @ (if bom_pending f then BOM else []) @ data"
  obtain k failure where ow: "on_write env (hpath f) s P = (k, failure)"
    by (cases "on_write env (hpath f) s P") auto
  show thesis
  proof (cases failure)
    case None
    have "write_bytes env f data s = (s @ take k P, f\<lparr>bom_pending := False, buffer := drop k P\<rparr>, Inr ())"
      unfolding write_bytes_def Let_def P_def[symmetric] ow None by simp
    with ow None that(1)[of k] show thesis
      unfolding P_def by blast
  next
    case (Some je)
    obtain j e where je: "je = (j, e)"
      by (cases je) auto
    have "write_bytes env f data s = (s @ take k P, f\<lparr>bom_pending := False, buffer := take j (drop k P)\<rparr>, Inl e)"
      unfolding write_bytes_def Let_def P_def[symmetric] ow Some je by simp
    with ow Some je that(2)[of k j e] show thesis
      unfolding P_def by blast
  qed
qed

lemma write_bytes_handle:
  "write_bytes env f data s = (s1, f1, r) \<Longrightarrow> hpath f1 = hpath f \<and> \<not> bom_pending f1"
  by (rule write_bytes_cases[of env f s data]) auto

lemma prefix_take_take: "prefix (take k xs @ take j (drop k xs)) xs"
proof -
  have "take k xs @ take j (drop k xs) = take (k + j) xs"
    by (simp add: take_add)
  then show ?thesis
    by (simp add: take_is_prefix)
qed

lemma write_bytes_stream:
  assumes "write_bytes env f data s = (s1, f1, r)"
  shows "prefix (s1 @ buffer f1) (s @ buffer f @ (if bom_pending f then BOM else []) @ data)"
    and "prefix s s1"
    and "r = Inr () \<Longrightarrow> s1 @ buffer f1 = s @ buffer f @ (if bom_pending f then BOM else []) @ data"
proof -
  define P where "P = buffer f @ (if bom_pending f then BOM else []) @ data"
  have "prefix (s1 @ buffer f1) (s @ P) \<and> prefix s s1 \<and> (r = Inr () \<longrightarrow> s1 @ buffer f1 = s @ P)"
  proof (rule write_bytes_cases[of env f s data])
    fix k
    assume "write_bytes env f data s =
        (s @ take k (buffer f @ (if bom_pending f then BOM else []) @ data),
         f\<lparr>bom_pending := False, buffer := drop k (buffer f @ (if bom_pending f then BOM else []) @ data)\<rparr>, Inr ())"
    with assms have "s1 = s @ take k P" "buffer f1 = drop k P"
      unfolding P_def[symmetric] by auto
    then show ?thesis by simp
  next
    fix k j e
    assume "write_bytes env f data s =
        (s @ take k (buffer f @ (if bom_pending f then BOM else []) @ data),
         f\<lparr>bom_pending := False,
           buffer := take j (drop k (buffer f @ (if bom_pending f then BOM else []) @ data))\<rparr>, Inl e)"
    with assms have "s1 = s @ take k P" "buffer f1 = take j (drop k P)" "r = Inl e"
      unfolding P_def[symmetric] by auto
    then show ?thesis by (simp add: prefix_take_take)
  qed
  then show "prefix (s1 @ buffer f1) (s @ buffer f @ (if bom_pending f then BOM else []) @ data)"
    and "prefix s s1"
    and "r = Inr () \<Longrightarrow> s1 @ buffer f1 = s @ buffer f @ (if bom_pending f then BOM else []) @ data"
    unfolding P_def by auto
qed

lemma write_bytes_ok:
  "no_failure env \<Longrightarrow> snd (snd (write_bytes env f data s)) = Inr ()"
proof (rule write_bytes_cases[of env f s data])
  fix k j e
  assume "no_failure env"
    and "on_write env (hpath f) s (buffer f @ (if bom_pending f then BOM else []) @ data) = (k, Some (j, e))"
  then have False
    by (metis no_failure_def option.distinct(1) snd_conv)
  then show ?thesis ..
qed simp


lemma finish_ok: "no_failure env \<Longrightarrow> finish env (s, f, r) = (s @ buffer f, r)"
  by (simp add: finish_def close_bytes_def no_failure_def)

lemma finish_error: "\<exists>e'. snd (finish env (s, f, Inl e)) = Inl e'"
  by (auto simp: finish_def close_bytes_def split: option.splits)

subsection \<open>From the file to the file system\<close>

lemma fwrite_upd:
  "fwrite env f data (fs(hpath f \<mapsto> s)) =
     (case write_bytes env f data s of (s1, f1, r) \<Rightarrow> (fs(hpath f \<mapsto> s1), f1, r))"
  by (simp add: fwrite_def content_def split: prod.splits)

lemma leave_upd:
  "leave env (fs(hpath f \<mapsto> s), f, r) =
     (case finish env (s, f, r) of (c, r') \<Rightarrow> (fs(hpath f \<mapsto> c), r'))"
  by (simp add: leave_def fclose_def finish_def content_def split: prod.splits sum.splits)

lemma pages_A_file_hpath:
  "pages_A_file env f pgs s = (s1, f1, r) \<Longrightarrow> hpath f1 = hpath f"
proof (induction pgs arbitrary: f s)
  case Nil
  then show ?case by simp
next
  case (Cons pg pgs)
  show ?case
  proof (cases pg)
    case (Inl e)
    with Cons.prems show ?thesis by simp
  next
    case (Inr t)
    obtain s2 f2 r2 where w: "write_bytes env f (t @ page_break) s = (s2, f2, r2)"
      by (cases "write_bytes env f (t @ page_break) s") auto
    then have h: "hpath f2 = hpath f"
      by (simp add: write_bytes_handle)
    show ?thesis
    proof (cases r2)
      case (Inl e)
      with Cons.prems Inr w h show ?thesis by simp
    next
      case r: (Inr u)
      with Cons.prems Inr w have "pages_A_file env f2 pgs s2 = (s1, f1, r)"
        by simp
      with Cons.IH h show ?thesis by simp
    qed
  qed
qed

lemma write_pages_A_file:
  "write_pages_A env f pgs (fs(hpath f \<mapsto> s)) =
     (case pages_A_file env f pgs s of (s1, f1, r) \<Rightarrow> (fs(hpath f \<mapsto> s1), f1, r))"
proof (induction pgs arbitrary: f s)
  case Nil
  show ?case by simp
next
  case (Cons pg pgs)
  show ?case
  proof (cases pg)
    case (Inl e)
    then show ?thesis by simp
  next
    case (Inr t)
    obtain s2 f2 r2 where w: "write_bytes env f (t @ page_break) s = (s2, f2, r2)"
      by (cases "write_bytes env f (t @ page_break) s") auto
    then have h: "hpath f2 = hpath f"
      by (simp add: write_bytes_handle)
    show ?thesis
    proof (cases r2)
      case (Inl e)
      with Inr w show ?thesis
        by (simp add: fwrite_upd del: fun_upd_apply)
    next
      case r: (Inr u)
      have "write_pages_A env f2 pgs (fs(hpath f2 \<mapsto> s2)) =
          (case pages_A_file env f2 pgs s2 of (s1, f1, r) \<Rightarrow> (fs(hpath f2 \<mapsto> s1), f1, r))"
        by (rule Cons.IH)
      with Inr w r h show ?thesis
        by (simp add: fwrite_upd del: fun_upd_apply)
    qed
  qed
qed

lemma pages_B_file_hpath:
  "pages_B_file env f i pgs s = (s1, f1, r) \<Longrightarrow> hpath f1 = hpath f"
proof (induction pgs arbitrary: f i s)
  case Nil
  then show ?case by simp
next
  case (Cons pg pgs)
  show ?case
  proof (cases pg)
    case (Inl e)
    with Cons.prems show ?thesis by simp
  next
    case (Inr t)
    obtain s2 f2 r2 where w: "write_bytes env f (page_header (Suc i)) s = (s2, f2, r2)"
      by (cases "write_bytes env f (page_header (Suc i)) s") auto
    obtain s3 f3 r3 where w': "write_bytes env f2 t s2 = (s3, f3, r3)"
      by (cases "write_bytes env f2 t s2") auto
    have h: "hpath f2 = hpath f" "hpath f3 = hpath f"
      using w w' by (simp_all add: write_bytes_handle)
    show ?thesis
    proof (cases r2)
      case (Inl e)
      with Cons.prems Inr w h show ?thesis by simp
    next
      case r2: (Inr u)
      show ?thesis
      proof (cases r3)
        case (Inl e)
        with Cons.prems Inr w w' r2 h show ?thesis by simp
      next
        case r3: (Inr u')
        with Cons.prems Inr w w' r2 have "pages_B_file env f3 (Suc i) pgs s3 = (s1, f1, r)"
          by simp
        with Cons.IH h show ?thesis by simp
      qed
    qed
  qed
qed

lemma write_pages_B_file:
  "write_pages_B env f i pgs (fs(hpath f \<mapsto> s)) =
     (case pages_B_file env f i pgs s of (s1, f1, r) \<Rightarrow> (fs(hpath f \<mapsto> s1), f1, r))"
proof (induction pgs arbitrary: f i s)
  case Nil
  show ?case by simp
next
  case (Cons pg pgs)
  show ?case
  proof (cases pg)
    case (Inl e)
    then show ?thesis by simp
  next
    case (Inr t)
    obtain s2 f2 r2 where w: "write_bytes env f (page_header (Suc i)) s = (s2, f2, r2)"
      by (cases "write_bytes env f (page_header (Suc i)) s") auto
    obtain s3 f3 r3 where w': "write_bytes env f2 t s2 = (s3, f3, r3)"
      by (cases "write_bytes env f2 t s2") auto
    have h: "hpath f2 = hpath f" "hpath f3 = hpath f"
      using w w' by (simp_all add: write_bytes_handle)
    have fw: "fwrite env f (page_header (Suc i)) (fs(hpath f \<mapsto> s)) = (fs(hpath f \<mapsto> s2), f2, r2)"
      by (simp add: fwrite_upd w)
    have fw': "fwrite env f2 t (fs(hpath f \<mapsto> s2)) = (fs(hpath f \<mapsto> s3), f3, r3)"
      using fwrite_upd[of env f2 t fs s2] by (simp add: w' h)
    show ?thesis
    proof (cases r2)
      case (Inl e)
      with Inr w fw show ?thesis
        by (simp del: fun_upd_apply)
    next
      case r2: (Inr u)
      show ?thesis
      proof (cases r3)
        case (Inl e)
        with Inr w w' fw fw' r2 show ?thesis
          by (simp del: fun_upd_apply)
      next
        case r3: (Inr u')
        have "write_pages_B env f3 (Suc i) pgs (fs(hpath f3 \<mapsto> s3)) =
            (case pages_B_file env f3 (Suc i) pgs s3 of (s1, f1, r) \<Rightarrow> (fs(hpath f3 \<mapsto> s1), f1, r))"
          by (rule Cons.IH)
        with Inr w w' fw fw' r2 r3 h show ?thesis
          by (simp del: fun_upd_apply)
      qed
    qed
  qed
qed

subsection \<open>Whole runs, seen from their files\<close>

lemma extract_prd_block:
  "extract_prd env (Inr rd) fs =
     (case open_err env prd_full of
        Some e \<Rightarrow> (fs, Inl e)
      | None \<Rightarrow> (case block_A env rd of (c, r) \<Rightarrow> (fs(prd_full \<mapsto> c), r)))"
proof (cases "open_err env prd_full")
  case (Some e)
  then show ?thesis
    by (simp add: extract_prd_def fopen_def)
next
  case None
  let ?f = "fresh prd_full UTF8"
  have hp: "hpath ?f = prd_full"
    by (simp add: fresh_def)
  show ?thesis
  proof (cases rd)
    case (Inl e)
    have "leave env (fs(hpath ?f \<mapsto> []), ?f, Inl e) =
        (case finish env ([], ?f, Inl e) of (c, r') \<Rightarrow> (fs(hpath ?f \<mapsto> c), r'))"
      by (rule leave_upd)
    with None Inl show ?thesis
      by (simp add: extract_prd_def fopen_def block_A_def hp del: fun_upd_apply)
  next
    case (Inr pgs)
    obtain s1 f1 r where p: "pages_A_file env ?f pgs [] = (s1, f1, r)"
      by (cases "pages_A_file env ?f pgs []") auto
    then have h1: "hpath f1 = prd_full"
      using pages_A_file_hpath[OF p] by (simp add: hp)
    have "write_pages_A env ?f pgs (fs(hpath ?f \<mapsto> [])) = (fs(hpath ?f \<mapsto> s1), f1, r)"
      by (simp add: write_pages_A_file p)
    then have w: "write_pages_A env ?f pgs (fs(prd_full \<mapsto> [])) = (fs(prd_full \<mapsto> s1), f1, r)"
      by (simp add: hp)
    have "leave env (fs(hpath f1 \<mapsto> s1), f1, r) =
        (case finish env (s1, f1, r) of (c, r') \<Rightarrow> (fs(hpath f1 \<mapsto> c), r'))"
      by (rule leave_upd)
    with None Inr w p h1 show ?thesis
      by (simp add: extract_prd_def fopen_def block_A_def del: fun_upd_apply)
  qed
qed

lemma extract_prd2_block:
  "extract_prd2 env (Inr rd) fs =
     (case open_err env output_path of
        Some e \<Rightarrow> (fs, Inl e)
      | None \<Rightarrow> (case block_B env rd of (c, r) \<Rightarrow> (fs(output_path \<mapsto> c), r)))"
proof (cases "open_err env output_path")
  case (Some e)
  then show ?thesis
    by (simp add: extract_prd2_def fopen_def)
next
  case None
  let ?f = "fresh output_path UTF8"
  have hp: "hpath ?f = output_path"
    by (simp add: fresh_def)
  show ?thesis
  proof (cases rd)
    case (Inl e)
    have "leave env (fs(hpath ?f \<mapsto> []), ?f, Inl e) =
        (case finish env ([], ?f, Inl e) of (c, r') \<Rightarrow> (fs(hpath ?f \<mapsto> c), r'))"
      by (rule leave_upd)
    with None Inl show ?thesis
      by (simp add: extract_prd2_def fopen_def block_B_def hp del: fun_upd_apply)
  next
    case (Inr pgs)
    obtain s1 f1 r where p: "pages_B_file env ?f 0 pgs [] = (s1, f1, r)"
      by (cases "pages_B_file env ?f 0 pgs []") auto
    then have h1: "hpath f1 = output_path"
      using pages_B_file_hpath[OF p] by (simp add: hp)
    have "write_pages_B env ?f 0 pgs (fs(hpath ?f \<mapsto> [])) = (fs(hpath ?f \<mapsto> s1), f1, r)"
      by (simp add: write_pages_B_file p)
    then have w: "write_pages_B env ?f 0 pgs (fs(output_path \<mapsto> [])) = (fs(output_path \<mapsto> s1), f1, r)"
      by (simp add: hp)
    have "leave env (fs(hpath f1 \<mapsto> s1), f1, r) =
        (case finish env (s1, f1, r) of (c, r') \<Rightarrow> (fs(hpath f1 \<mapsto> c), r'))"
      by (rule leave_upd)
    with None Inr w p h1 show ?thesis
      by (simp add: extract_prd2_def fopen_def block_B_def del: fun_upd_apply)
  qed
qed

lemma write_pages_C_step:
  "write_pages_C env i (pg # pgs) fs =
     (case open_err env (page_file env (i + 1)) of
        Some e \<Rightarrow> (fs, Inl e)
      | None \<Rightarrow>
          (case block_C env (page_file env (i + 1)) pg of
             (c, Inl e) \<Rightarrow> (fs(page_file env (i + 1) \<mapsto> c), Inl e)
           | (c, Inr u) \<Rightarrow> write_pages_C env (i + 1) pgs (fs(page_file env (i + 1) \<mapsto> c))))"
proof (cases "open_err env (page_file env (i + 1))")
  case (Some e)
  then show ?thesis
    by (simp add: fopen_def)
next
  case None
  let ?p = "page_file env (Suc i)"
  let ?f = "fresh ?p UTF8_SIG"
  have hp: "hpath ?f = ?p"
    by (simp add: fresh_def)
  obtain s1 f1 r where b: "(case pg of Inl e \<Rightarrow> ([], ?f, Inl e) | Inr text \<Rightarrow> write_bytes env ?f text []) = (s1, f1, r)"
    by (cases "case pg of Inl e \<Rightarrow> ([], ?f, Inl e) | Inr text \<Rightarrow> write_bytes env ?f text []") auto
  have h1: "hpath f1 = ?p"
    using b hp by (cases pg) (auto dest: write_bytes_handle)
  have body: "(case pg of Inl e \<Rightarrow> (fs(?p \<mapsto> []), ?f, Inl e) | Inr text \<Rightarrow> fwrite env ?f text (fs(?p \<mapsto> []))) =
      (fs(?p \<mapsto> s1), f1, r)"
  proof (cases pg)
    case (Inl e)
    with b show ?thesis by auto
  next
    case (Inr t)
    have "fwrite env ?f t (fs(hpath ?f \<mapsto> [])) =
        (case write_bytes env ?f t [] of (s1, f1, r) \<Rightarrow> (fs(hpath ?f \<mapsto> s1), f1, r))"
      by (rule fwrite_upd)
    with Inr b hp show ?thesis by simp
  qed
  have "leave env (fs(hpath f1 \<mapsto> s1), f1, r) =
      (case finish env (s1, f1, r) of (c, r') \<Rightarrow> (fs(hpath f1 \<mapsto> c), r'))"
    by (rule leave_upd)
  then have lv: "leave env (fs(?p \<mapsto> s1), f1, r) =
      (case finish env (s1, f1, r) of (c, r') \<Rightarrow> (fs(?p \<mapsto> c), r'))"
    by (simp only: h1)
  have bc: "block_C env ?p pg = finish env (s1, f1, r)"
    by (simp only: block_C_def b)
  show ?thesis
    using None by (simp add: fopen_def body lv bc split: prod.splits sum.splits del: fun_upd_apply)
qed

subsection \<open>What a file holds\<close>

lemma joined_A_simps [simp]:
  "joined_A [] = []"
  "joined_A (t # ts) = t @ page_break @ joined_A ts"
  by (simp_all add: joined_A_def)

lemma joined_B_from_simps [simp]:
  "joined_B_from i [] = []"
  "joined_B_from i (t # ts) = page_header (Suc i) @ t @ joined_B_from (Suc i) ts"
  by (simp_all add: joined_B_from_def)

lemma good_texts_map [simp]: "good_texts (map Inr ts) = ts"
  by (induction ts) simp_all

lemma good_texts_then [simp]: "good_texts (map Inr ts @ Inl e # rest) = ts"
  by (induction ts) simp_all

lemma pages_A_file_inv:
  assumes "pages_A_file env f pgs s = (s1, f1, r)" and "\<not> bom_pending f"
  shows "\<not> bom_pending f1 \<and>
    prefix (s1 @ buffer f1) (s @ buffer f @ joined_A (good_texts pgs)) \<and>
    (r = Inr () \<longrightarrow> pgs = map Inr (good_texts pgs) \<and> s1 @ buffer f1 = s @ buffer f @ joined_A (good_texts pgs))"
  using assms
proof (induction pgs arbitrary: f s)
  case Nil
  then show ?case by auto
next
  case (Cons pg pgs)
  show ?case
  proof (cases pg)
    case (Inl e)
    with Cons.prems show ?thesis by auto
  next
    case (Inr t)
    obtain s2 f2 r2 where w: "write_bytes env f (t @ page_break) s = (s2, f2, r2)"
      by (cases "write_bytes env f (t @ page_break) s") auto
    note st = write_bytes_stream[OF w] and hd = write_bytes_handle[OF w]
    show ?thesis
    proof (cases r2)
      case (Inl e)
      with Cons.prems Inr w have "s1 = s2" "f1 = f2" "r = Inl e"
        by simp_all
      moreover have "prefix (s2 @ buffer f2) (s @ buffer f @ t @ page_break @ joined_A (good_texts pgs))"
        using st(1) Cons.prems(2) prefix_prefix[of "s2 @ buffer f2" "s @ buffer f @ t @ page_break" "joined_A (good_texts pgs)"]
        by simp
      ultimately show ?thesis
        using Inr hd by simp
    next
      case r2: (Inr u)
      with Cons.prems Inr w have run: "pages_A_file env f2 pgs s2 = (s1, f1, r)"
        by simp
      have eq: "s2 @ buffer f2 = s @ buffer f @ t @ page_break"
        using st(3) r2 Cons.prems(2) by simp
      have "\<not> bom_pending f2"
        using hd by simp
      from Cons.IH[OF run this] eq show ?thesis
        using Inr by (simp add: append_assoc[symmetric] del: append_assoc)
    qed
  qed
qed

lemma pages_B_file_inv:
  assumes "pages_B_file env f i pgs s = (s1, f1, r)" and "\<not> bom_pending f"
  shows "\<not> bom_pending f1 \<and>
    prefix (s1 @ buffer f1) (s @ buffer f @ joined_B_from i (good_texts pgs)) \<and>
    (r = Inr () \<longrightarrow> pgs = map Inr (good_texts pgs) \<and> s1 @ buffer f1 = s @ buffer f @ joined_B_from i (good_texts pgs))"
  using assms
proof (induction pgs arbitrary: f i s)
  case Nil
  then show ?case by auto
next
  case (Cons pg pgs)
  show ?case
  proof (cases pg)
    case (Inl e)
    with Cons.prems show ?thesis by auto
  next
    case (Inr t)
    obtain s2 f2 r2 where w: "write_bytes env f (page_header (Suc i)) s = (s2, f2, r2)"
      by (cases "write_bytes env f (page_header (Suc i)) s") auto
    obtain s3 f3 r3 where w': "write_bytes env f2 t s2 = (s3, f3, r3)"
      by (cases "write_bytes env f2 t s2") auto
    note st = write_bytes_stream[OF w] and hd = write_bytes_handle[OF w]
    note st' = write_bytes_stream[OF w'] and hd' = write_bytes_handle[OF w']
    let ?rest = "joined_B_from (Suc i) (good_texts pgs)"
    show ?thesis
    proof (cases r2)
      case (Inl e)
      with Cons.prems Inr w have "s1 = s2" "f1 = f2" "r = Inl e"
        by simp_all
      moreover have "prefix (s2 @ buffer f2) (s @ buffer f @ page_header (Suc i) @ t @ ?rest)"
        using st(1) Cons.prems(2) prefix_prefix[of "s2 @ buffer f2" "s @ buffer f @ page_header (Suc i)" "t @ ?rest"]
        by simp
      ultimately show ?thesis
        using Inr hd by simp
    next
      case r2: (Inr u)
      have eq: "s2 @ buffer f2 = s @ buffer f @ page_header (Suc i)"
        using st(3) r2 Cons.prems(2) by simp
      show ?thesis
      proof (cases r3)
        case (Inl e)
        with Cons.prems Inr w w' r2 have res: "s1 = s3" "f1 = f3" "r = Inl e"
          by simp_all
        have "prefix (s3 @ buffer f3) (s2 @ buffer f2 @ t)"
          using st'(1) hd by simp
        moreover have "s2 @ buffer f2 @ t = s @ buffer f @ page_header (Suc i) @ t"
          using eq by (metis append_assoc)
        ultimately have "prefix (s3 @ buffer f3) (s @ buffer f @ page_header (Suc i) @ t)"
          by simp
        then have "prefix (s3 @ buffer f3) (s @ buffer f @ page_header (Suc i) @ t @ ?rest)"
          using prefix_prefix[of "s3 @ buffer f3" "s @ buffer f @ page_header (Suc i) @ t" ?rest] by simp
        with res show ?thesis
          using Inr hd' by simp
      next
        case r3: (Inr u')
        with Cons.prems Inr w w' r2 have run: "pages_B_file env f3 (Suc i) pgs s3 = (s1, f1, r)"
          by simp
        have "s3 @ buffer f3 = (s2 @ buffer f2) @ t"
          using st'(3) r3 hd by simp
        then have eq': "s3 @ buffer f3 = s @ buffer f @ page_header (Suc i) @ t"
          using eq by simp
        have "\<not> bom_pending f3"
          using hd' by simp
        from Cons.IH[OF run this] eq' show ?thesis
          using Inr by (simp add: append_assoc[symmetric] del: append_assoc)
      qed
    qed
  qed
qed

lemma pages_A_file_ok:
  "no_failure env \<Longrightarrow> snd (snd (pages_A_file env f (map Inr ts) s)) = Inr ()"
proof (induction ts arbitrary: f s)
  case Nil
  show ?case by simp
next
  case (Cons t ts)
  obtain s2 f2 r2 where w: "write_bytes env f (t @ page_break) s = (s2, f2, r2)"
    by (cases "write_bytes env f (t @ page_break) s") auto
  then have "r2 = Inr ()"
    using write_bytes_ok[OF Cons.prems, of f "t @ page_break" s] by simp
  with w Cons.IH[OF Cons.prems] show ?case by simp
qed

lemma pages_B_file_ok:
  "no_failure env \<Longrightarrow> snd (snd (pages_B_file env f i (map Inr ts) s)) = Inr ()"
proof (induction ts arbitrary: f i s)
  case Nil
  show ?case by simp
next
  case (Cons t ts)
  obtain s2 f2 r2 where w: "write_bytes env f (page_header (Suc i)) s = (s2, f2, r2)"
    by (cases "write_bytes env f (page_header (Suc i)) s") auto
  obtain s3 f3 r3 where w': "write_bytes env f2 t s2 = (s3, f3, r3)"
    by (cases "write_bytes env f2 t s2") auto
  have "r2 = Inr ()" "r3 = Inr ()"
    using write_bytes_ok[OF Cons.prems, of f "page_header (Suc i)" s]
      write_bytes_ok[OF Cons.prems, of f2 t s2] w w' by simp_all
  with w w' Cons.IH[OF Cons.prems] show ?case by simp
qed



subsection \<open>The file of a whole \<^verbatim>\<open>with\<close> statement\<close>

lemma fresh_simps [simp]:
  "hpath (fresh p enc) = p" "buffer (fresh p enc) = []" "bom_pending (fresh p enc) = (enc = UTF8_SIG)"
  by (simp_all add: fresh_def)




lemma block_A_ok:
  assumes "no_failure env"
  shows "block_A env (Inr (map Inr ts)) = (joined_A ts, Inr ())"
proof -
  obtain s1 f1 r1 where p: "pages_A_file env (fresh prd_full UTF8) (map Inr ts) [] = (s1, f1, r1)"
    by (cases "pages_A_file env (fresh prd_full UTF8) (map Inr ts) []") auto
  then have "r1 = Inr ()"
    using pages_A_file_ok[OF assms, of "fresh prd_full UTF8" ts "[]"] by simp
  then have "s1 @ buffer f1 = joined_A ts"
    using pages_A_file_inv[OF p] by simp
  then show ?thesis
    using p \<open>r1 = Inr ()\<close> by (simp add: block_A_def finish_ok[OF assms])
qed

lemma block_B_ok:
  assumes "no_failure env"
  shows "block_B env (Inr (map Inr ts)) = (joined_B ts, Inr ())"
proof -
  obtain s1 f1 r1 where p: "pages_B_file env (fresh output_path UTF8) 0 (map Inr ts) [] = (s1, f1, r1)"
    by (cases "pages_B_file env (fresh output_path UTF8) 0 (map Inr ts) []") auto
  then have "r1 = Inr ()"
    using pages_B_file_ok[OF assms, of "fresh output_path UTF8" 0 ts "[]"] by simp
  then have "s1 @ buffer f1 = joined_B ts"
    using pages_B_file_inv[OF p] by (simp add: joined_B_def)
  then show ?thesis
    using p \<open>r1 = Inr ()\<close> by (simp add: block_B_def finish_ok[OF assms])
qed



lemma block_C_ok: "no_failure env \<Longrightarrow> block_C env p (Inr t) = (BOM @ t, Inr ())"
proof -
  assume nf: "no_failure env"
  obtain s1 f1 r1 where w: "write_bytes env (fresh p UTF8_SIG) t [] = (s1, f1, r1)"
    by (cases "write_bytes env (fresh p UTF8_SIG) t []") auto
  then have "r1 = Inr ()"
    using write_bytes_ok[OF nf, of "fresh p UTF8_SIG" t "[]"] by simp
  then have "s1 @ buffer f1 = BOM @ t"
    using write_bytes_stream(3)[OF w] by simp
  then show ?thesis
    using w \<open>r1 = Inr ()\<close> by (simp add: block_C_def finish_ok[OF nf])
qed



subsection \<open>Decimal numerals and file names\<close>

lemma lt10_cases: "d < (10::nat) \<Longrightarrow> d \<in> {0, 1, 2, 3, 4, 5, 6, 7, 8, 9}"
  by auto

lemma digit_val_digit_char: "d < 10 \<Longrightarrow> digit_val (digit_char d) = d"
  by (drule lt10_cases) (auto simp: digit_val_def digit_char_def)

lemma is_digit_digit_char: "d < 10 \<Longrightarrow> is_digit (digit_char d)"
  by (drule lt10_cases) (auto simp: is_digit_def digit_char_def)

lemma int_of_digits_snoc: "int_of_digits (ds @ [c]) = 10 * int_of_digits ds + digit_val c"
  by (simp add: int_of_digits_def)

lemma int_of_digits_str_nat: "int_of_digits (str_nat n) = n"
proof (induction n rule: str_nat.induct)
  case (1 n)
  show ?case
  proof (cases "n < 10")
    case True
    then show ?thesis
      by (subst str_nat.simps) (simp add: int_of_digits_def digit_val_digit_char)
  next
    case False
    then have "int_of_digits (str_nat (n div 10)) = n div 10"
      using 1 by simp
    with False show ?thesis
      by (subst str_nat.simps) (simp add: int_of_digits_snoc digit_val_digit_char)
  qed
qed

lemma str_nat_inj: "str_nat m = str_nat n \<Longrightarrow> m = n"
  by (metis int_of_digits_str_nat)

lemma str_nat_digits: "\<forall>c \<in> set (str_nat n). is_digit c"
proof (induction n rule: str_nat.induct)
  case (1 n)
  show ?case
  proof (cases "n < 10")
    case True
    then show ?thesis
      by (subst str_nat.simps) (simp add: is_digit_digit_char)
  next
    case False
    with 1 show ?thesis
      by (subst str_nat.simps) (simp add: is_digit_digit_char)
  qed
qed

lemma str_nat_nonempty: "str_nat n \<noteq> []"
  by (subst str_nat.simps) simp

lemma str_nat_small:
  "str_nat 0 = ''0''" "str_nat (Suc 0) = ''1''" "str_nat (Suc (Suc 0)) = ''2''" "str_nat (Suc (Suc (Suc 0))) = ''3''"
  "str_nat 1 = ''1''" "str_nat 2 = ''2''" "str_nat 3 = ''3''"
  by (simp_all add: str_nat.simps[of 0] str_nat.simps[of "Suc 0"] str_nat.simps[of "Suc (Suc 0)"]
      str_nat.simps[of "Suc (Suc (Suc 0))"] str_nat.simps[of 1] str_nat.simps[of 2] str_nat.simps[of 3] digit_char_def)

lemma page_file_inj: "page_file env m = page_file env n \<Longrightarrow> m = n"
  by (simp add: page_file_def join_def str_nat_inj)

lemma page_files_card: "card (page_file env ` {1 .. n}) = n"
proof -
  have "inj_on (page_file env) {1 .. n}"
    by (rule inj_onI) (rule page_file_inj)
  then show ?thesis
    by (simp add: card_image)
qed

lemma page_file_pathsep: "pathsep env = pathsep env' \<Longrightarrow> page_file env n = page_file env' n"
  by (simp add: page_file_def join_def)

subsection \<open>Patterns without a line feed\<close>

lemma prefix_local: "c \<notin> set pat \<Longrightarrow> prefix pat (u @ c # v) \<longleftrightarrow> prefix pat u"
  by (auto simp: prefix_append prefix_Cons)

lemma occurrences_local:
  "c \<notin> set pat \<Longrightarrow> pat \<noteq> [] \<Longrightarrow> occurrences pat (u @ c # v) = occurrences pat u + occurrences pat v"
proof (induction u)
  case Nil
  then show ?case by (cases pat) auto
next
  case (Cons a u)
  have "prefix pat ((a # u) @ c # v) \<longleftrightarrow> prefix pat (a # u)"
    using Cons.prems(1) by (rule prefix_local)
  with Cons show ?case by simp
qed

lemma occurrences_marker: "occurrences marker marker = 1"
  by (simp add: marker_def)

lemma occurrences_page_break: "occurrences marker (t @ page_break @ r) = occurrences marker t + 1 + occurrences marker r"
proof -
  have nl: "CHR 0x0A \<notin> set marker" "marker \<noteq> []" by (simp_all add: marker_def)
  have pb: "page_break @ r = CHR 0x0A # ([] @ CHR 0x0A # (marker @ CHR 0x0A # ([] @ CHR 0x0A # r)))"
    by (simp add: page_break_def marker_def)
  show ?thesis
    unfolding pb by (simp only: occurrences_local[OF nl] occurrences_marker occurrences.simps)
qed

lemma occurrences_joined_A:
  "\<forall>t \<in> set ts. occurrences marker t = 0 \<Longrightarrow> occurrences marker (joined_A ts) = length ts"
  by (induction ts) (simp_all add: occurrences_page_break)

lemma page_header_line: "page_header n = CHR 0x0A # header_line n @ [CHR 0x0A]"
  by (simp add: page_header_def header_line_def)

lemma not_digit_newline: "\<not> is_digit (CHR 0x0A)"
  by (simp add: is_digit_def)

lemma header_at_local: "header_at (u @ CHR 0x0A # v) = header_at u"
proof (cases "prefix ''=== PAGE '' u")
  case True
  then obtain r where u: "u = ''=== PAGE '' @ r"
    by (auto simp: prefix_def)
  have tw: "takeWhile is_digit (r @ CHR 0x0A # v) = takeWhile is_digit r"
    by (rule takeWhile_tail) (rule not_digit_newline)
  have dw: "dropWhile is_digit (r @ CHR 0x0A # v) = dropWhile is_digit r @ CHR 0x0A # v"
    by (rule dropWhile_append3) (rule not_digit_newline)
  have pf: "prefix '' ==='' (dropWhile is_digit r @ CHR 0x0A # v) \<longleftrightarrow> prefix '' ==='' (dropWhile is_digit r)"
    by (rule prefix_local) simp
  show ?thesis
    unfolding u header_at_def by (simp add: tw dw pf)
next
  case False
  moreover have "prefix ''=== PAGE '' (u @ CHR 0x0A # v) \<longleftrightarrow> prefix ''=== PAGE '' u"
    by (rule prefix_local) simp
  ultimately show ?thesis
    by (simp add: header_at_def)
qed

lemma headers_local: "headers (u @ CHR 0x0A # v) = headers u @ headers v"
proof (induction u)
  case Nil
  have "header_at (CHR 0x0A # v) = None"
    by (simp add: header_at_def)
  then show ?case by simp
next
  case (Cons a u)
  have "header_at ((a # u) @ CHR 0x0A # v) = header_at (a # u)"
    by (rule header_at_local)
  with Cons show ?case
    by (simp split: option.splits)
qed

lemma takeWhile_digits: "\<forall>c \<in> set ds. is_digit c \<Longrightarrow> \<not> is_digit x \<Longrightarrow> takeWhile is_digit (ds @ x # r) = ds"
  by (induction ds) simp_all

lemma dropWhile_digits: "\<forall>c \<in> set ds. is_digit c \<Longrightarrow> \<not> is_digit x \<Longrightarrow> dropWhile is_digit (ds @ x # r) = x # r"
  by (induction ds) simp_all

lemma header_at_header_line: "header_at (header_line n) = Some n"
proof -
  have sp: "\<not> is_digit CHR '' ''" by (simp add: is_digit_def)
  have tw: "takeWhile is_digit (str_nat n @ CHR '' '' # ''==='') = str_nat n"
    by (rule takeWhile_digits[OF str_nat_digits sp])
  have dw: "dropWhile is_digit (str_nat n @ CHR '' '' # ''==='') = CHR '' '' # ''===''"
    by (rule dropWhile_digits[OF str_nat_digits sp])
  show ?thesis
    by (simp add: header_at_def header_line_def tw dw str_nat_nonempty int_of_digits_str_nat)
qed

lemma headers_digits_tail: "\<forall>c \<in> set ds. is_digit c \<Longrightarrow> headers (ds @ '' ==='') = []"
proof (induction ds)
  case Nil
  show ?case by (simp add: header_at_def)
next
  case (Cons d ds)
  then have "d \<noteq> CHR ''=''" by (auto simp: is_digit_def)
  then have "header_at (d # ds @ '' ==='') = None"
    by (simp add: header_at_def)
  with Cons show ?case by simp
qed

lemma headers_header_line: "headers (header_line n) = [n]"
proof -
  have tl: "headers (str_nat n @ '' ==='') = []"
    by (rule headers_digits_tail[OF str_nat_digits])
  have hd: "header_at (''=== PAGE '' @ str_nat n @ '' ==='') = Some n"
    using header_at_header_line[of n] by (simp add: header_line_def)
  have "headers (''=== PAGE '' @ str_nat n @ '' ==='') = n # headers (''== PAGE '' @ str_nat n @ '' ==='')"
    using hd by simp
  also have "headers (''== PAGE '' @ str_nat n @ '' ==='') = headers (str_nat n @ '' ==='')"
    by (simp add: header_at_def)
  finally show ?thesis
    by (simp add: header_line_def tl)
qed

lemma headers_page_header: "headers (page_header n @ r) = n # headers r"
proof -
  have "page_header n @ r = [] @ CHR 0x0A # (header_line n @ CHR 0x0A # r)"
    by (simp add: page_header_line)
  then show ?thesis
    by (simp only: headers_local headers_header_line headers.simps) simp
qed

lemma joined_B_from_shape: "joined_B_from i ts = [] \<or> (\<exists>r. joined_B_from i ts = CHR 0x0A # r)"
  by (cases ts) (simp_all add: page_header_line)

lemma headers_before_joined: "headers (t @ joined_B_from i ts) = headers t @ headers (joined_B_from i ts)"
proof -
  consider "joined_B_from i ts = []" | r where "joined_B_from i ts = CHR 0x0A # r"
    using joined_B_from_shape by blast
  then show ?thesis
  proof cases
    case 1
    then show ?thesis by simp
  next
    case 2
    have "headers (CHR 0x0A # r) = headers r"
      by (simp add: header_at_def)
    then show ?thesis
      by (simp add: 2 headers_local del: headers.simps)
  qed
qed

lemma headers_joined_B_from:
  "\<forall>t \<in> set ts. headers t = [] \<Longrightarrow> headers (joined_B_from i ts) = [Suc i ..< Suc i + length ts]"
proof (induction ts arbitrary: i)
  case Nil
  then show ?case by simp
next
  case (Cons t ts)
  have "headers (joined_B_from i (t # ts)) = Suc i # headers (t @ joined_B_from (Suc i) ts)"
    by (simp add: headers_page_header del: headers.simps)
  also have "\<dots> = Suc i # headers (joined_B_from (Suc i) ts)"
    using Cons.prems by (simp add: headers_before_joined)
  also have "\<dots> = Suc i # [Suc (Suc i) ..< Suc (Suc i) + length ts]"
    using Cons by simp
  finally have "headers (joined_B_from i (t # ts)) = Suc i # [Suc (Suc i) ..< Suc i + length (t # ts)]"
    by simp
  moreover have "[Suc i ..< Suc i + length (t # ts)] = Suc i # [Suc (Suc i) ..< Suc i + length (t # ts)]"
    by (rule upt_conv_Cons) simp
  ultimately show ?case by simp
qed

lemma headers_joined_B:
  "\<forall>t \<in> set ts. headers t = [] \<Longrightarrow> headers (joined_B ts) = [1 ..< Suc (length ts)]"
  by (simp add: headers_joined_B_from joined_B_def)

subsection \<open>Runs on a platform without failures\<close>

lemma extract_prd_joined:
  "no_failure env \<Longrightarrow> extract_prd env (good_pdf ts) fs = (fs(prd_full \<mapsto> joined_A ts), Inr ())"
proof -
  assume nf: "no_failure env"
  then have "open_err env prd_full = None"
    by (simp add: no_failure_def)
  then show ?thesis
    by (simp add: good_pdf_def extract_prd_block block_A_ok[OF nf])
qed

lemma extract_prd2_joined:
  "no_failure env \<Longrightarrow> extract_prd2 env (good_pdf ts) fs = (fs(output_path \<mapsto> joined_B ts), Inr ())"
proof -
  assume nf: "no_failure env"
  then have "open_err env output_path = None"
    by (simp add: no_failure_def)
  then show ?thesis
    by (simp add: good_pdf_def extract_prd2_block block_B_ok[OF nf])
qed

lemma write_pages_C_frame:
  "p \<notin> page_file env ` {i + 1 .. i + length pgs} \<Longrightarrow> fst (write_pages_C env i pgs fs) p = fs p"
proof (induction pgs arbitrary: i fs)
  case Nil
  then show ?case by simp
next
  case (Cons pg pgs)
  have ne: "p \<noteq> page_file env (i + 1)"
    using Cons.prems by auto
  have "p \<notin> page_file env ` {Suc i + 1 .. Suc i + length pgs}"
    using Cons.prems by auto
  then have ih: "fst (write_pages_C env (Suc i) pgs fs') p = fs' p" for fs'
    by (rule Cons.IH)
  show ?case
    unfolding write_pages_C_step using ne
    by (simp add: ih split: option.splits sum.splits prod.splits)
qed

lemma write_pages_C_step_ok:
  "no_failure env \<Longrightarrow>
   write_pages_C env i (Inr t # pgs) fs = write_pages_C env (Suc i) pgs (fs(page_file env (Suc i) \<mapsto> BOM @ t))"
proof -
  assume nf: "no_failure env"
  then have "open_err env (page_file env (Suc i)) = None"
    by (simp add: no_failure_def)
  then show ?thesis
    unfolding write_pages_C_step by (simp add: block_C_ok[OF nf])
qed

lemma write_pages_C_ok:
  "no_failure env \<Longrightarrow>
   snd (write_pages_C env i (map Inr ts) fs) = Inr () \<and>
   (\<forall>k < length ts. fst (write_pages_C env i (map Inr ts) fs) (page_file env (i + k + 1)) = Some (BOM @ ts ! k))"
proof (induction ts arbitrary: i fs)
  case Nil
  then show ?case by simp
next
  case (Cons t ts)
  let ?fs = "fs(page_file env (Suc i) \<mapsto> BOM @ t)"
  have step: "write_pages_C env i (map Inr (t # ts)) fs = write_pages_C env (Suc i) (map Inr ts) ?fs"
    using write_pages_C_step_ok[OF Cons.prems] by simp
  have ih: "snd (write_pages_C env (Suc i) (map Inr ts) ?fs) = Inr ()"
    "\<And>k. k < length ts \<Longrightarrow> fst (write_pages_C env (Suc i) (map Inr ts) ?fs) (page_file env (Suc i + k + 1)) = Some (BOM @ ts ! k)"
    using Cons.IH[OF Cons.prems, of "Suc i" ?fs] by (simp_all del: fun_upd_apply)
  have "page_file env (Suc i) \<notin> page_file env ` {Suc i + 1 .. Suc i + length (map Inr ts :: page list)}"
    by (auto dest: page_file_inj)
  then have first: "fst (write_pages_C env (Suc i) (map Inr ts) ?fs) (page_file env (Suc i)) = Some (BOM @ t)"
    by (simp add: write_pages_C_frame)
  show ?case
  proof (intro conjI allI impI)
    show "snd (write_pages_C env i (map Inr (t # ts)) fs) = Inr ()"
      by (simp only: step ih)
  next
    fix k assume "k < length (t # ts)"
    then show "fst (write_pages_C env i (map Inr (t # ts)) fs) (page_file env (i + k + 1)) = Some (BOM @ (t # ts) ! k)"
      using ih(2)[of "k - 1"] first by (cases k) (simp_all add: step del: list.map)
  qed
qed

lemma extract_prd_pages_ok:
  assumes "no_failure env"
  shows "snd (extract_prd_pages env (good_pdf ts) fs) = Inr ()"
    and "1 \<le> n \<Longrightarrow> n \<le> length ts \<Longrightarrow>
         fst (extract_prd_pages env (good_pdf ts) fs) (page_file env n) = Some (BOM @ ts ! (n - 1))"
proof -
  show "snd (extract_prd_pages env (good_pdf ts) fs) = Inr ()"
    using write_pages_C_ok[OF assms, of 0 ts fs] by (simp add: extract_prd_pages_def good_pdf_def)
next
  assume "1 \<le> n" "n \<le> length ts"
  then have "n - 1 < length ts" "0 + (n - 1) + 1 = n"
    by simp_all
  then show "fst (extract_prd_pages env (good_pdf ts) fs) (page_file env n) = Some (BOM @ ts ! (n - 1))"
    using write_pages_C_ok[OF assms, of 0 ts fs] by (auto simp: extract_prd_pages_def good_pdf_def)
qed

lemma extract_prd_pages_frame:
  "p \<notin> page_file env ` {1 .. length pgs} \<Longrightarrow> fst (extract_prd_pages env (Inr (Inr pgs)) fs) p = fs p"
  using write_pages_C_frame[of p env 0 pgs fs] by (simp add: extract_prd_pages_def)


subsection \<open>Running a script again\<close>

text \<open>
  A run overrides the file system with files that do not depend on what the file system
  held: every file it touches is truncated when it is opened.
\<close>

lemma write_pages_C_delta:
  "\<exists>m r. \<forall>fs. write_pages_C env i pgs fs = (fs ++ m, r)"
proof (induction pgs arbitrary: i)
  case Nil
  have "\<forall>fs. write_pages_C env i [] fs = (fs ++ Map.empty, Inr ())" by simp
  then show ?case by blast
next
  case (Cons pg pgs)
  obtain m r where ih: "\<And>fs. write_pages_C env (Suc i) pgs fs = (fs ++ m, r)"
    using Cons.IH[of "Suc i"] by blast
  let ?p = "page_file env (Suc i)"
  show ?case
  proof (cases "open_err env ?p")
    case (Some e)
    then have "\<forall>fs. write_pages_C env i (pg # pgs) fs = (fs ++ Map.empty, Inl e)"
      unfolding write_pages_C_step by simp
    then show ?thesis by blast
  next
    case None
    obtain c rc where b: "block_C env ?p pg = (c, rc)"
      by (cases "block_C env ?p pg") auto
    show ?thesis
    proof (cases rc)
      case (Inl e)
      then have "\<forall>fs. write_pages_C env i (pg # pgs) fs = (fs ++ [?p \<mapsto> c], Inl e)"
        unfolding write_pages_C_step using None b by simp
      then show ?thesis by blast
    next
      case (Inr u)
      then have "\<forall>fs. write_pages_C env i (pg # pgs) fs = (fs ++ ([?p \<mapsto> c] ++ m), r)"
        unfolding write_pages_C_step using None b by (simp add: ih del: fun_upd_apply)
      then show ?thesis by blast
    qed
  qed
qed

lemma extract_prd_delta: "\<exists>m r. \<forall>fs. extract_prd env doc fs = (fs ++ m, r)"
proof (cases doc)
  case (Inl e)
  then have "\<forall>fs. extract_prd env doc fs = (fs ++ Map.empty, Inl e)"
    by (simp add: extract_prd_def)
  then show ?thesis by blast
next
  case (Inr rd)
  show ?thesis
  proof (cases "open_err env prd_full")
    case (Some e)
    then have "\<forall>fs. extract_prd env doc fs = (fs ++ Map.empty, Inl e)"
      using Inr by (simp add: extract_prd_block)
    then show ?thesis by blast
  next
    case None
    obtain c r where "block_A env rd = (c, r)"
      by (cases "block_A env rd") auto
    then have "\<forall>fs. extract_prd env doc fs = (fs ++ [prd_full \<mapsto> c], r)"
      using Inr None by (simp add: extract_prd_block)
    then show ?thesis by blast
  qed
qed

lemma extract_prd2_delta: "\<exists>m r. \<forall>fs. extract_prd2 env doc fs = (fs ++ m, r)"
proof (cases doc)
  case (Inl e)
  then have "\<forall>fs. extract_prd2 env doc fs = (fs ++ Map.empty, Inl e)"
    by (simp add: extract_prd2_def)
  then show ?thesis by blast
next
  case (Inr rd)
  show ?thesis
  proof (cases "open_err env output_path")
    case (Some e)
    then have "\<forall>fs. extract_prd2 env doc fs = (fs ++ Map.empty, Inl e)"
      using Inr by (simp add: extract_prd2_block)
    then show ?thesis by blast
  next
    case None
    obtain c r where "block_B env rd = (c, r)"
      by (cases "block_B env rd") auto
    then have "\<forall>fs. extract_prd2 env doc fs = (fs ++ [output_path \<mapsto> c], r)"
      using Inr None by (simp add: extract_prd2_block)
    then show ?thesis by blast
  qed
qed

lemma extract_prd_pages_delta: "\<exists>m r. \<forall>fs. extract_prd_pages env doc fs = (fs ++ m, r)"
proof (cases doc)
  case (Inl e)
  then have "\<forall>fs. extract_prd_pages env doc fs = (fs ++ Map.empty, Inl e)"
    by (simp add: extract_prd_pages_def)
  then show ?thesis by blast
next
  case (Inr rd)
  show ?thesis
  proof (cases rd)
    case (Inl e)
    then have "\<forall>fs. extract_prd_pages env doc fs = (fs ++ Map.empty, Inl e)"
      using Inr by (simp add: extract_prd_pages_def)
    then show ?thesis by blast
  next
    case pgs: (Inr pgs)
    then show ?thesis
      using Inr write_pages_C_delta[of env 0 pgs] by (simp add: extract_prd_pages_def)
  qed
qed

lemma rerun_same:
  assumes "\<forall>fs. run fs = (fs ++ m, r)"
  shows "run (fst (run fs)) = run fs"
proof -
  have "m ++ m = m"
    by (rule ext) (simp add: map_add_def split: option.splits)
  then have "(fs ++ m) ++ m = fs ++ m"
    by (simp only: map_add_assoc[symmetric])
  with assms show ?thesis by simp
qed

lemma no_failure_windows: "no_failure windows"
  by (simp add: no_failure_def windows_def)

subsection \<open>Runs that stop at a failure\<close>






















lemma pathsep_windows: "pathsep windows = backslash"
  by (simp add: windows_def)

section \<open>Properties of the scripts\<close>

subsection \<open>Variant A\<close>

text \<open>
  C1, as the code has it. The loop writes the separator after every page, the last one
  included, so the file of an \<open>N\<close>-page document holds the marker \<open>N\<close> times (not
  \<open>N - 1\<close> times), provided that no page text contains the marker.
\<close>

theorem page_break_count:
  assumes "no_failure env" and "\<forall>t \<in> set ts. occurrences marker t = 0"
  shows "occurrences marker (content (fst (extract_prd env (good_pdf ts) fs)) prd_full) = length ts"
  using assms by (simp add: extract_prd_joined content_def occurrences_joined_A)

theorem page_break_count_witness:
  "no_failure windows \<and>
   occurrences marker ''Intro'' = 0 \<and> occurrences marker ''Body'' = 0 \<and> occurrences marker ''End'' = 0 \<and>
   occurrences marker (content (fst (extract_prd windows (good_pdf [''Intro'', ''Body'', ''End'']) Map.empty)) prd_full) = 3"
  using page_break_count [of windows "[''Intro'', ''Body'', ''End'']" Map.empty]
  by (simp add: no_failure_windows marker_def)

text \<open>
  The three-page document of the specification's example: no text contains the marker,
  and the file holds it three times, not twice.
\<close>

theorem page_break_count_counterexample:
  "occurrences marker ''Intro'' = 0 \<and> occurrences marker ''Body'' = 0 \<and> occurrences marker ''End'' = 0 \<and>
   occurrences marker (content (fst (extract_prd windows (good_pdf [''Intro'', ''Body'', ''End'']) Map.empty)) prd_full)
     \<noteq> length [''Intro'', ''Body'', ''End''] - 1"
  by (simp add: extract_prd_joined no_failure_windows content_def marker_def page_break_def)

text \<open>
  C2. When nothing fails, the file of variant A is the concatenation, in page order, of
  every page text followed by \<^verbatim>\<open>\n\n---PAGE BREAK---\n\n\<close>, whatever the file system
  held at that path before.
\<close>

theorem variant_A_output:
  assumes "no_failure env"
  shows "extract_prd env (good_pdf ts) fs =
    (fs(prd_full \<mapsto> concat (map (\<lambda>t. t @ ''\<newline>\<newline>---PAGE BREAK---\<newline>\<newline>'') ts)), Inr ())"
  using assms by (simp add: extract_prd_joined joined_A_def page_break_def)

theorem variant_A_output_witness:
  "no_failure windows \<and>
   extract_prd windows (good_pdf [''Intro'', ''Body'', ''End'']) [prd_full \<mapsto> ''stale''] =
     ([prd_full \<mapsto> ''Intro\<newline>\<newline>---PAGE BREAK---\<newline>\<newline>Body\<newline>\<newline>---PAGE BREAK---\<newline>\<newline>End\<newline>\<newline>---PAGE BREAK---\<newline>\<newline>''], Inr ())"
  using variant_A_output [of windows "[''Intro'', ''Body'', ''End'']" "[prd_full \<mapsto> ''stale'']"]
  by (simp add: no_failure_windows)

subsection \<open>Variant B\<close>

text \<open>
  C3. When nothing fails, the file of variant B is the concatenation, in page order, of
  \<^verbatim>\<open>\n=== PAGE <n> ===\n\<close> and the text of page \<open>n\<close>, for \<open>n\<close> from 1, with nothing
  behind the last text. Consequently, when no page text contains a header, the headers
  found in the file are those of the numbers 1 to \<open>N\<close>, once each and in ascending order.
\<close>

theorem variant_B_output:
  assumes "no_failure env"
  shows "extract_prd2 env (good_pdf ts) fs =
      (fs(output_path \<mapsto>
         concat (map (\<lambda>(i, t). ''\<newline>=== PAGE '' @ str_nat (i + 1) @ '' ===\<newline>'' @ t) (enumerate 0 ts))), Inr ())
    \<and> ((\<forall>t \<in> set ts. headers t = []) \<longrightarrow>
         headers (content (fst (extract_prd2 env (good_pdf ts) fs)) output_path) = [1 ..< Suc (length ts)])"
  using assms
  by (simp add: extract_prd2_joined headers_joined_B content_def)
     (simp add: joined_B_def joined_B_from_def page_header_def)

theorem variant_B_output_witness:
  "no_failure windows \<and> headers ''Intro'' = [] \<and> headers ''Body'' = [] \<and> headers ''End'' = [] \<and>
   extract_prd2 windows (good_pdf [''Intro'', ''Body'', ''End'']) Map.empty =
     ([output_path \<mapsto> ''\<newline>=== PAGE 1 ===\<newline>Intro\<newline>=== PAGE 2 ===\<newline>Body\<newline>=== PAGE 3 ===\<newline>End''], Inr ()) \<and>
   headers (content (fst (extract_prd2 windows (good_pdf [''Intro'', ''Body'', ''End'']) Map.empty)) output_path) = [1, 2, 3]"
  using variant_B_output [of windows "[''Intro'', ''Body'', ''End'']" Map.empty]
  by (simp add: no_failure_windows header_at_def enumerate_eq_zip upt_conv_Cons str_nat.simps digit_char_def
      content_def numeral_2_eq_2 numeral_3_eq_3 is_digit_def int_of_digits_def digit_val_def)

subsection \<open>Variant C\<close>

text \<open>
  C4. When nothing fails, variant C writes one file for every page number \<open>n\<close> from 1
  to \<open>N\<close>, named \<^verbatim>\<open>prd_page_<n>.md\<close> in the destination directory; these are \<open>N\<close>
  different files, each holds the byte-order mark of UTF-8 followed by the text of page
  \<open>n\<close> and nothing else, and no other file is created or changed.
\<close>

theorem variant_C_files:
  assumes "no_failure env"
  shows "snd (extract_prd_pages env (good_pdf ts) fs) = Inr () \<and>
    card (page_file env ` {1 .. length ts}) = length ts \<and>
    (\<forall>n. 1 \<le> n \<and> n \<le> length ts \<longrightarrow>
       page_file env n = outdir @ pathsep env @ ''prd_page_'' @ str_nat n @ ''.md'' \<and>
       fst (extract_prd_pages env (good_pdf ts) fs) (page_file env n) = Some (BOM @ ts ! (n - 1))) \<and>
    (\<forall>p. p \<notin> page_file env ` {1 .. length ts} \<longrightarrow> fst (extract_prd_pages env (good_pdf ts) fs) p = fs p)"
proof (intro conjI allI impI)
  show "snd (extract_prd_pages env (good_pdf ts) fs) = Inr ()"
    by (rule extract_prd_pages_ok(1)[OF assms])
  show "card (page_file env ` {1 .. length ts}) = length ts"
    by (rule page_files_card)
next
  fix n
  show "page_file env n = outdir @ pathsep env @ ''prd_page_'' @ str_nat n @ ''.md''"
    by (simp add: page_file_def join_def)
  assume "1 \<le> n \<and> n \<le> length ts"
  then show "fst (extract_prd_pages env (good_pdf ts) fs) (page_file env n) = Some (BOM @ ts ! (n - 1))"
    using extract_prd_pages_ok(2)[OF assms] by simp
next
  fix p
  assume "p \<notin> page_file env ` {1 .. length ts}"
  then have "p \<notin> page_file env ` {1 .. length (map Inr ts :: page list)}"
    by simp
  then show "fst (extract_prd_pages env (good_pdf ts) fs) p = fs p"
    unfolding good_pdf_def by (rule extract_prd_pages_frame)
qed

theorem variant_C_files_witness:
  "no_failure windows \<and>
   extract_prd_pages windows (good_pdf [''Intro'', ''Body'', ''End'']) Map.empty =
     ([outdir @ backslash @ ''prd_page_1.md'' \<mapsto> BOM @ ''Intro'',
       outdir @ backslash @ ''prd_page_2.md'' \<mapsto> BOM @ ''Body'',
       outdir @ backslash @ ''prd_page_3.md'' \<mapsto> BOM @ ''End''], Inr ()) \<and>
   card (page_file windows ` {1 .. 3}) = 3 \<and>
   fst (extract_prd_pages windows (good_pdf [''Intro'', ''Body'', ''End'']) Map.empty) (page_file windows 2) = Some (BOM @ ''Body'')"
proof -
  note t = variant_C_files [OF no_failure_windows, of "[''Intro'', ''Body'', ''End'']" Map.empty]
  have run: "extract_prd_pages windows (good_pdf [''Intro'', ''Body'', ''End'']) Map.empty =
     ([outdir @ backslash @ ''prd_page_1.md'' \<mapsto> BOM @ ''Intro'',
       outdir @ backslash @ ''prd_page_2.md'' \<mapsto> BOM @ ''Body'',
       outdir @ backslash @ ''prd_page_3.md'' \<mapsto> BOM @ ''End''], Inr ())"
    by (simp add: extract_prd_pages_def good_pdf_def write_pages_C_step_ok[OF no_failure_windows]
        page_file_def join_def pathsep_windows str_nat_small
        del: write_pages_C.simps(2))
  from t have "card (page_file windows ` {1 .. length [''Intro'', ''Body'', ''End'']}) = length [''Intro'', ''Body'', ''End'']"
    by blast
  then have c: "card (page_file windows ` {1 .. 3}) = 3"
    by (simp add: numeral_3_eq_3)
  from t have "1 \<le> (2::nat) \<and> (2::nat) \<le> length [''Intro'', ''Body'', ''End''] \<longrightarrow>
      fst (extract_prd_pages windows (good_pdf [''Intro'', ''Body'', ''End'']) Map.empty) (page_file windows 2)
        = Some (BOM @ [''Intro'', ''Body'', ''End''] ! (2 - 1))"
    by blast
  then have f: "fst (extract_prd_pages windows (good_pdf [''Intro'', ''Body'', ''End'']) Map.empty) (page_file windows 2) = Some (BOM @ ''Body'')"
    by simp
  show ?thesis
    using run c f no_failure_windows by blast
qed

text \<open>
  C9. A run of variant C over \<open>N\<close> pages changes no file other than
  \<^verbatim>\<open>prd_page_<n>.md\<close> for \<open>n\<close> from 1 to \<open>N\<close>, whether it succeeds or stops at a
  failure: every other path, and in particular a file \<^verbatim>\<open>prd_page_<m>.md\<close> with
  \<open>m > N\<close> left by an earlier run, keeps what it had and is not deleted. A run whose
  document or page list cannot be obtained changes nothing at all.
\<close>

theorem other_files_untouched:
  "(p \<notin> page_file env ` {1 .. length pgs} \<longrightarrow> fst (extract_prd_pages env (Inr (Inr pgs)) fs) p = fs p) \<and>
   (length pgs < m \<longrightarrow> fst (extract_prd_pages env (Inr (Inr pgs)) fs) (page_file env m) = fs (page_file env m)) \<and>
   fst (extract_prd_pages env (Inl e) fs) = fs \<and>
   fst (extract_prd_pages env (Inr (Inl e)) fs) = fs"
proof (intro conjI impI)
  assume "p \<notin> page_file env ` {1 .. length pgs}"
  then show "fst (extract_prd_pages env (Inr (Inr pgs)) fs) p = fs p"
    by (rule extract_prd_pages_frame)
next
  assume "length pgs < m"
  then have "page_file env m \<notin> page_file env ` {1 .. length pgs}"
    by (auto dest: page_file_inj)
  then show "fst (extract_prd_pages env (Inr (Inr pgs)) fs) (page_file env m) = fs (page_file env m)"
    by (rule extract_prd_pages_frame)
qed (simp_all add: extract_prd_pages_def)

theorem other_files_untouched_witness:
  "''notes.txt'' \<notin> page_file windows ` {1 .. 2} \<and> (2::nat) < 3 \<and>
   fst (extract_prd_pages windows (good_pdf [''Intro'', ''Body''])
         [''notes.txt'' \<mapsto> ''keep'', page_file windows 3 \<mapsto> BOM @ ''old third page'']) ''notes.txt'' = Some ''keep'' \<and>
   fst (extract_prd_pages windows (good_pdf [''Intro'', ''Body''])
         [''notes.txt'' \<mapsto> ''keep'', page_file windows 3 \<mapsto> BOM @ ''old third page'']) (page_file windows 3)
     = Some (BOM @ ''old third page'')"
proof -
  let ?fs = "[''notes.txt'' \<mapsto> ''keep'', page_file windows 3 \<mapsto> BOM @ ''old third page'']"
  have n: "''notes.txt'' \<notin> page_file windows ` {1 .. 2}"
    by (auto simp: page_file_def join_def outdir_def)
  have ne: "''notes.txt'' \<noteq> page_file windows 3"
    by (simp add: page_file_def join_def outdir_def)
  let ?pgs = "map Inr [''Intro'', ''Body''] :: page list"
  have n': "''notes.txt'' \<notin> page_file windows ` {1 .. length ?pgs}"
    by (auto simp: page_file_def join_def outdir_def)
  have m: "length ?pgs < 3"
    by simp
  note t = other_files_untouched [of "''notes.txt''" windows ?pgs ?fs 3]
  from t n' have "fst (extract_prd_pages windows (Inr (Inr ?pgs)) ?fs) ''notes.txt'' = ?fs ''notes.txt''"
    by blast
  then have a: "fst (extract_prd_pages windows (good_pdf [''Intro'', ''Body'']) ?fs) ''notes.txt'' = Some ''keep''"
    using ne by (simp add: good_pdf_def)
  from t m have "fst (extract_prd_pages windows (Inr (Inr ?pgs)) ?fs) (page_file windows 3) = ?fs (page_file windows 3)"
    by blast
  then have b: "fst (extract_prd_pages windows (good_pdf [''Intro'', ''Body'']) ?fs) (page_file windows 3) = Some (BOM @ ''old third page'')"
    by (simp add: good_pdf_def)
  show ?thesis
    using n a b by simp
qed

subsection \<open>All variants\<close>




text \<open>
  C6, as the code has it. For a document without pages, variants A and B leave an empty
  file and variant C leaves the file system as it was. A page whose text is the empty
  string does not make a run fail: in variant A it contributes the separator alone, in
  variant B its header alone, and in variant C its file holds the byte-order mark and
  nothing else, which is three bytes and not an empty file.
\<close>

theorem empty_document_and_empty_page:
  assumes "no_failure env"
  shows "extract_prd env (good_pdf []) fs = (fs(prd_full \<mapsto> []), Inr ()) \<and>
    extract_prd2 env (good_pdf []) fs = (fs(output_path \<mapsto> []), Inr ()) \<and>
    extract_prd_pages env (good_pdf []) fs = (fs, Inr ()) \<and>
    extract_prd env (good_pdf (ts @ [] # us)) fs = (fs(prd_full \<mapsto> joined_A ts @ page_break @ joined_A us), Inr ()) \<and>
    extract_prd2 env (good_pdf (ts @ [] # us)) fs =
      (fs(output_path \<mapsto> joined_B ts @ page_header (length ts + 1) @ joined_B_from (length ts + 1) us), Inr ()) \<and>
    snd (extract_prd_pages env (good_pdf (ts @ [] # us)) fs) = Inr () \<and>
    fst (extract_prd_pages env (good_pdf (ts @ [] # us)) fs) (page_file env (length ts + 1)) = Some BOM"
proof -
  have ja: "joined_A (ts @ [] # us) = joined_A ts @ page_break @ joined_A us"
    by (simp add: joined_A_def)
  have jb: "joined_B_from i (ts @ [] # us) = joined_B_from i ts @ page_header (i + length ts + 1) @ joined_B_from (i + length ts + 1) us" for i
    by (induction ts arbitrary: i) simp_all
  have c: "fst (extract_prd_pages env (good_pdf (ts @ [] # us)) fs) (page_file env (length ts + 1)) = Some (BOM @ (ts @ [] # us) ! (length ts + 1 - 1))"
    by (rule extract_prd_pages_ok(2)[OF assms]) simp_all
  show ?thesis
    using assms c extract_prd_pages_ok(1)[OF assms, of "ts @ [] # us" fs]
    by (simp add: extract_prd_joined extract_prd2_joined ja jb[of 0] joined_B_def)
       (simp add: extract_prd_pages_def good_pdf_def)
qed

theorem empty_document_and_empty_page_witness:
  "no_failure windows \<and>
   extract_prd windows (good_pdf []) Map.empty = ([prd_full \<mapsto> []], Inr ()) \<and>
   extract_prd_pages windows (good_pdf []) Map.empty = (Map.empty, Inr ()) \<and>
   extract_prd windows (good_pdf [''Intro'', [], ''End'']) Map.empty =
     ([prd_full \<mapsto> ''Intro\<newline>\<newline>---PAGE BREAK---\<newline>\<newline>\<newline>\<newline>---PAGE BREAK---\<newline>\<newline>End\<newline>\<newline>---PAGE BREAK---\<newline>\<newline>''], Inr ()) \<and>
   fst (extract_prd_pages windows (good_pdf [''Intro'', [], ''End'']) Map.empty) (page_file windows 2) = Some BOM"
  using empty_document_and_empty_page [OF no_failure_windows, of Map.empty "[''Intro'']" "[''End'']"]
    empty_document_and_empty_page [OF no_failure_windows, of Map.empty "[]" "[]"]
  by (simp add: no_failure_windows page_break_def numeral_2_eq_2)

text \<open>
  A document whose only page has the empty text: the run of variant C succeeds and the
  file of the page is not empty.
\<close>

theorem empty_page_file_counterexample:
  "snd (extract_prd_pages windows (good_pdf [[]]) Map.empty) = Inr () \<and>
   content (fst (extract_prd_pages windows (good_pdf [[]]) Map.empty)) (page_file windows 1) \<noteq> []"
  by (simp add: extract_prd_pages_def good_pdf_def write_pages_C_step_ok[OF no_failure_windows]
      content_def BOM_def del: write_pages_C.simps(2))

text \<open>
  C7. Running a script again on the file system that its first run left, with the same
  outcomes of the PDF library and the same platform, returns the same result and leaves
  the file system as the first run left it. This holds for every variant and also for
  runs that stop at a failure.
\<close>

theorem rerun_identical:
  "extract_prd env doc (fst (extract_prd env doc fs)) = extract_prd env doc fs \<and>
   extract_prd2 env doc (fst (extract_prd2 env doc fs)) = extract_prd2 env doc fs \<and>
   extract_prd_pages env doc (fst (extract_prd_pages env doc fs)) = extract_prd_pages env doc fs"
proof (intro conjI)
  obtain m r where "\<forall>fs. extract_prd env doc fs = (fs ++ m, r)"
    using extract_prd_delta by blast
  then show "extract_prd env doc (fst (extract_prd env doc fs)) = extract_prd env doc fs"
    by (rule rerun_same)
next
  obtain m r where "\<forall>fs. extract_prd2 env doc fs = (fs ++ m, r)"
    using extract_prd2_delta by blast
  then show "extract_prd2 env doc (fst (extract_prd2 env doc fs)) = extract_prd2 env doc fs"
    by (rule rerun_same)
next
  obtain m r where "\<forall>fs. extract_prd_pages env doc fs = (fs ++ m, r)"
    using extract_prd_pages_delta by blast
  then show "extract_prd_pages env doc (fst (extract_prd_pages env doc fs)) = extract_prd_pages env doc fs"
    by (rule rerun_same)
qed



text \<open>
  C10. Variant A does not determine the pages from the file: a single page whose text is
  \<open>t\<close>, the separator and \<open>u\<close> gives the same file as the two pages \<open>t\<close> and \<open>u\<close>, so
  there are two different sequences of page texts with the same output.
\<close>

theorem variant_A_not_injective:
  assumes "no_failure env"
  shows "(\<exists>ts ts'. ts \<noteq> ts' \<and> extract_prd env (good_pdf ts) fs = extract_prd env (good_pdf ts') fs) \<and>
    [t @ page_break @ u] \<noteq> [t, u] \<and>
    extract_prd env (good_pdf [t @ page_break @ u]) fs = extract_prd env (good_pdf [t, u]) fs"
proof -
  have eq: "extract_prd env (good_pdf [t @ page_break @ u]) fs = extract_prd env (good_pdf [t, u]) fs" for t u
    using assms by (simp add: extract_prd_joined)
  have "[[] @ page_break @ []] \<noteq> [[], []]"
    by simp
  with eq[of "[]" "[]"] have "\<exists>ts ts'. ts \<noteq> ts' \<and> extract_prd env (good_pdf ts) fs = extract_prd env (good_pdf ts') fs"
    by blast
  with eq show ?thesis by simp
qed

theorem variant_A_not_injective_witness:
  "no_failure windows \<and>
   [''Intro\<newline>\<newline>---PAGE BREAK---\<newline>\<newline>Body''] \<noteq> [''Intro'', ''Body''] \<and>
   extract_prd windows (good_pdf [''Intro\<newline>\<newline>---PAGE BREAK---\<newline>\<newline>Body'']) Map.empty =
     extract_prd windows (good_pdf [''Intro'', ''Body'']) Map.empty"
  using variant_A_not_injective [OF no_failure_windows, of Map.empty "''Intro''" "''Body''"]
  by (simp add: no_failure_windows page_break_def)

end
